theory Spec2Isabelle
  imports Main
begin

section \<open>FAQ chatbot (faq-chatbot-rag/app.py): strings\<close>

text \<open>
  Python text is modelled as \<^typ>\<open>string\<close>, one \<^typ>\<open>char\<close> per code point, for the code
  points U+0000 to U+00FF. \<open>is_space\<close> is \<open>str.isspace\<close> on that range: the characters
  that \<open>str.strip()\<close> removes.
\<close>

definition is_space :: "char \<Rightarrow> bool" where
  "is_space c \<longleftrightarrow>
     c \<in> {CHR 0x09, CHR 0x0A, CHR 0x0B, CHR 0x0C, CHR 0x0D,
          CHR 0x1C, CHR 0x1D, CHR 0x1E, CHR 0x1F, CHR 0x20, CHR 0x85, CHR 0xA0}"

text \<open>\<open>s.strip()\<close>: whitespace removed at both ends.\<close>

definition strip :: "string \<Rightarrow> string" where
  "strip s = rev (dropWhile is_space (rev (dropWhile is_space s)))"

text \<open>\<open>s.replace("\r", "")\<close>: every carriage return deleted.\<close>

definition remove_cr :: "string \<Rightarrow> string" where
  "remove_cr s = filter (\<lambda>c. c \<noteq> CHR 0x0D) s"

text \<open>
  \<open>xs[i:j]\<close> for integers \<open>i\<close>, \<open>j\<close>: a negative bound counts from the end, and both bounds
  are clamped to \<open>[0, len(xs)]\<close>; the slice is empty when the bounds cross. It never raises.
\<close>

definition py_slice :: "'a list \<Rightarrow> int \<Rightarrow> int \<Rightarrow> 'a list" where
  "py_slice xs i j =
     (let n = int (length xs);
          lo = (if i < 0 then max (i + n) 0 else min i n);
          hi = (if j < 0 then max (j + n) 0 else min j n)
      in take (nat (hi - lo)) (drop (nat lo) xs))"

section \<open>The chunker: \<open>chunk_text\<close>\<close>

text \<open>The statement \<open>if chunk: chunks.append(chunk)\<close>: an empty chunk is not kept.\<close>

definition append_nonempty :: "string list \<Rightarrow> string \<Rightarrow> string list" where
  "append_nonempty chunks chunk = (if chunk \<noteq> [] then chunks @ [chunk] else chunks)"

text \<open>
  The \<open>while start < n\<close> loop of \<open>chunk_text\<close>, with the loop variables \<open>start\<close> and
  \<open>chunks\<close> as arguments. The loop need not end, so the result is an option: \<open>None\<close> is a
  loop that runs forever. Nothing in the loop raises.
\<close>

partial_function (option) chunk_loop ::
  "string \<Rightarrow> int \<Rightarrow> int \<Rightarrow> int \<Rightarrow> string list \<Rightarrow> string list option" where
  "chunk_loop text max_chars overlap start chunks =
     (if start < int (length text) then
        (let end = min (start + max_chars) (int (length text));
             chunk = strip (py_slice text start end);
             chunks' = append_nonempty chunks chunk
         in if end = int (length text) then Some chunks'
            else chunk_loop text max_chars overlap
                   (if end - overlap < 0 then 0 else end - overlap) chunks')
      else Some chunks)"

definition chunk_text :: "string \<Rightarrow> int \<Rightarrow> int \<Rightarrow> string list option" where
  "chunk_text text0 max_chars overlap =
     (let text = remove_cr (strip text0)
      in if text = [] then Some [] else chunk_loop text max_chars overlap 0 [])"

section \<open>Building the index: \<open>build_index\<close>\<close>

text \<open>
  \<open>raw.split("\n\n")\<close>: the text is cut at every occurrence of two line feeds, found from
  left to right without overlap; \<open>cur\<close> is the part read so far. The result always has at
  least one part.
\<close>

fun split_acc :: "string \<Rightarrow> string \<Rightarrow> string list" where
  "split_acc cur [] = [cur]"
| "split_acc cur [c] = [cur @ [c]]"
| "split_acc cur (c # d # rest) =
     (if c = CHR 0x0A \<and> d = CHR 0x0A then cur # split_acc [] rest
      else split_acc (cur @ [c]) (d # rest))"

definition split_blank_lines :: "string \<Rightarrow> string list" where
  "split_blank_lines raw = split_acc [] raw"

text \<open>
  A page is what \<open>page.extract_text()\<close> returned, \<open>None\<close> included (\<open>or ""\<close> turns it into
  the empty text); reading the PDF itself is not modelled. \<open>rough_parts\<close> is the list
  comprehension \<open>[p for p in raw.split("\n\n") if p.strip()]\<close>.
\<close>

definition rough_parts :: "string option \<Rightarrow> string list" where
  "rough_parts page =
     (let raw = (case page of None \<Rightarrow> [] | Some t \<Rightarrow> t)
      in filter (\<lambda>p. strip p \<noteq> []) (split_blank_lines raw))"

text \<open>
  The three nested \<open>for\<close> loops of \<open>build_index\<close>, innermost first, with \<open>all_chunks\<close>
  passed along; a call of \<open>chunk_text\<close> that does not return stops everything.
\<close>

fun extend_parts :: "string list \<Rightarrow> string list \<Rightarrow> string list option" where
  "extend_parts all_chunks [] = Some all_chunks"
| "extend_parts all_chunks (part # parts) =
     (case chunk_text part 900 120 of
        None \<Rightarrow> None
      | Some cs \<Rightarrow> extend_parts (all_chunks @ cs) parts)"

fun extend_pages :: "string list \<Rightarrow> string option list \<Rightarrow> string list option" where
  "extend_pages all_chunks [] = Some all_chunks"
| "extend_pages all_chunks (page # pages) =
     (case extend_parts all_chunks (rough_parts page) of
        None \<Rightarrow> None
      | Some all_chunks' \<Rightarrow> extend_pages all_chunks' pages)"

fun extend_files :: "string list \<Rightarrow> string option list list \<Rightarrow> string list option" where
  "extend_files all_chunks [] = Some all_chunks"
| "extend_files all_chunks (f # files) =
     (case extend_pages all_chunks f of
        None \<Rightarrow> None
      | Some all_chunks' \<Rightarrow> extend_files all_chunks' files)"

text \<open>
  The FAISS index is kept as the list of the vectors added to it. The embedding model is
  a parameter \<open>encode\<close>, applied to each chunk; vectors are of any type \<open>'v\<close>. The result
  is the pair \<open>(index, chunks)\<close>, with \<open>None\<close> for the index when there are no chunks.
\<close>

datatype 'v index = IndexFlatIP "'v list"

definition build_index ::
  "(string \<Rightarrow> 'v) \<Rightarrow> string option list list \<Rightarrow> ('v index option \<times> string list) option" where
  "build_index encode files =
     (case extend_files [] files of
        None \<Rightarrow> None
      | Some all_chunks \<Rightarrow>
          if all_chunks = [] then Some (None, [])
          else Some (Some (IndexFlatIP (map encode all_chunks)), all_chunks))"

section \<open>Queries: \<open>retrieve\<close> and the page\<close>

datatype py_error = AttributeError | IndexError

text \<open>\<open>xs[i]\<close>: a negative index counts from the end; out of range raises IndexError.\<close>

definition py_index :: "'a list \<Rightarrow> int \<Rightarrow> py_error + 'a" where
  "py_index xs i =
     (if 0 \<le> i \<and> i < int (length xs) then Inr (xs ! nat i)
      else if i < 0 \<and> - int (length xs) \<le> i then Inr (xs ! nat (i + int (length xs)))
      else Inl IndexError)"

text \<open>\<open>[chunks[i] for i in I[0]]\<close>: the first index out of range raises.\<close>

fun lookup_chunks :: "string list \<Rightarrow> int list \<Rightarrow> py_error + string list" where
  "lookup_chunks chunks [] = Inr []"
| "lookup_chunks chunks (i # is) =
     (case py_index chunks i of
        Inl e \<Rightarrow> Inl e
      | Inr c \<Rightarrow> (case lookup_chunks chunks is of Inl e \<Rightarrow> Inl e | Inr cs \<Rightarrow> Inr (c # cs)))"

text \<open>
  \<open>retrieve\<close>. The search of the FAISS library is a parameter \<open>search\<close>, which gives the
  rows \<open>D[0]\<close> and \<open>I[0]\<close>; scores are of any type \<open>'s\<close>. Calling \<open>index.search\<close> on \<open>None\<close>
  raises AttributeError.
\<close>

definition retrieve ::
  "(string \<Rightarrow> 'v) \<Rightarrow> ('v index \<Rightarrow> 'v \<Rightarrow> int \<Rightarrow> 's list \<times> int list) \<Rightarrow>
   'v index option \<Rightarrow> string list \<Rightarrow> string \<Rightarrow> int \<Rightarrow> py_error + (string \<times> 's) list" where
  "retrieve encode search index chunks query k =
     (let qv = encode query
      in case index of
           None \<Rightarrow> Inl AttributeError
         | Some ix \<Rightarrow>
             (case search ix qv k of
                (D, I) \<Rightarrow>
                  (case lookup_chunks chunks I of
                     Inl e \<Rightarrow> Inl e
                   | Inr ctxs \<Rightarrow> Inr (zip ctxs D))))"

text \<open>
  The statements of the page from \<open>if uploaded:\<close> on, up to the matches that are shown:
  the prompt to upload, the warning that no text was found, the count of indexed chunks,
  or that count with the top matches of the query; \<open>Raised\<close> is an exception of
  \<open>retrieve\<close>.
\<close>

datatype 's page = Upload_info | No_text_warning | Indexed nat
  | Top_matches nat "(string \<times> 's) list" | Raised py_error

definition main_page ::
  "(string \<Rightarrow> 'v) \<Rightarrow> ('v index \<Rightarrow> 'v \<Rightarrow> int \<Rightarrow> 's list \<times> int list) \<Rightarrow>
   string option list list \<Rightarrow> string \<Rightarrow> 's page option" where
  "main_page encode search uploaded query =
     (if uploaded \<noteq> [] then
        (case build_index encode uploaded of
           None \<Rightarrow> None
         | Some (index, chunks) \<Rightarrow>
             if query \<noteq> [] \<and> chunks \<noteq> [] then
               (case retrieve encode search index chunks query 5 of
                  Inl e \<Rightarrow> Some (Raised e)
                | Inr top' \<Rightarrow> Some (Top_matches (length chunks) top'))
             else if chunks \<noteq> [] then Some (Indexed (length chunks))
             else Some No_text_warning)
      else Some Upload_info)"

section \<open>Notions used in the statements and proofs\<close>

text \<open>What the chunks of a result should be: trimmed, not empty, at most \<open>max_chars\<close> long.\<close>

definition trimmed_within :: "int \<Rightarrow> string \<Rightarrow> bool" where
  "trimmed_within max_chars c \<longleftrightarrow>
     c \<noteq> [] \<and> \<not> is_space (hd c) \<and> \<not> is_space (last c) \<and> int (length c) \<le> max_chars"

text \<open>
  The reading of "concatenating consecutive chunks' non-overlapping portions" used for the
  chunk length invariant: the first chunk whole, every later chunk without its first
  \<open>overlap\<close> characters.
\<close>

definition nonoverlapping_concat :: "nat \<Rightarrow> string list \<Rightarrow> string" where
  "nonoverlapping_concat overlap chunks =
     (case chunks of [] \<Rightarrow> [] | c # cs \<Rightarrow> c @ concat (map (drop overlap) cs))"

text \<open>
  The parts of a page that matter to \<open>build_index\<close>: those that are not blank, trimmed
  (\<open>chunk_text\<close> trims its argument first).
\<close>

definition norm_parts :: "string \<Rightarrow> string \<Rightarrow> string list" where
  "norm_parts cur s = map strip (filter (\<lambda>p. strip p \<noteq> []) (split_acc cur s))"

section \<open>Facts about strings and slices\<close>

lemma strip_Nil [simp]: "strip [] = []"
  by (simp add: strip_def)

lemma length_strip: "length (strip s) \<le> length s"
proof -
  have "length (dropWhile is_space (rev (dropWhile is_space s)))
          \<le> length (rev (dropWhile is_space s))"
    by (rule length_dropWhile_le)
  then have "length (strip s) \<le> length (dropWhile is_space s)"
    by (simp add: strip_def)
  also have "\<dots> \<le> length s" by (rule length_dropWhile_le)
  finally show ?thesis .
qed

lemma dropWhile_all_iff: "(\<forall>x \<in> set (dropWhile P xs). P x) \<longleftrightarrow> (\<forall>x \<in> set xs. P x)"
proof
  assume a: "\<forall>x \<in> set (dropWhile P xs). P x"
  have "dropWhile P xs = []"
  proof (rule ccontr)
    assume ne: "dropWhile P xs \<noteq> []"
    then have "\<not> P (hd (dropWhile P xs))" by (rule hd_dropWhile)
    moreover from ne have "hd (dropWhile P xs) \<in> set (dropWhile P xs)" by simp
    ultimately show False using a by blast
  qed
  then show "\<forall>x \<in> set xs. P x" by (simp add: dropWhile_eq_Nil_conv)
next
  assume "\<forall>x \<in> set xs. P x"
  then show "\<forall>x \<in> set (dropWhile P xs). P x" by (blast dest: set_dropWhileD)
qed

lemma strip_blank_iff: "strip s = [] \<longleftrightarrow> (\<forall>c \<in> set s. is_space c)"
  by (simp add: strip_def dropWhile_all_iff)

lemma last_strip: "strip s \<noteq> [] \<Longrightarrow> \<not> is_space (last (strip s))"
proof -
  assume ne: "strip s \<noteq> []"
  let ?r = "dropWhile is_space (rev (dropWhile is_space s))"
  from ne have "?r \<noteq> []" by (simp add: strip_def)
  then have "\<not> is_space (hd ?r)" by (rule hd_dropWhile)
  moreover have "last (strip s) = hd ?r" by (simp add: strip_def last_rev)
  ultimately show ?thesis by simp
qed

lemma hd_strip: "strip s \<noteq> [] \<Longrightarrow> \<not> is_space (hd (strip s))"
proof -
  assume ne: "strip s \<noteq> []"
  let ?d = "dropWhile is_space s"
  from ne have d: "?d \<noteq> []" by (auto simp: strip_blank_iff)
  then have nsp: "\<not> is_space (hd ?d)" by (rule hd_dropWhile)
  from d obtain x xs where dx: "?d = x # xs" by (cases ?d) auto
  with nsp have "\<not> is_space x" by simp
  then have "dropWhile is_space (rev xs @ [x]) = dropWhile is_space (rev xs) @ [x]"
    by (induction "rev xs") (auto simp: dropWhile_append)
  then have "strip s = x # rev (dropWhile is_space (rev xs))"
    by (simp add: strip_def dx)
  with \<open>\<not> is_space x\<close> show ?thesis by simp
qed

lemma strip_id:
  assumes "s \<noteq> []" "\<not> is_space (hd s)" "\<not> is_space (last s)"
  shows "strip s = s"
proof -
  from assms have "dropWhile is_space s = s" by (cases s) auto
  moreover from assms have "dropWhile is_space (rev s) = rev s"
    by (cases "rev s") (auto simp: hd_rev)
  ultimately show ?thesis by (simp add: strip_def)
qed

lemma strip_strip [simp]: "strip (strip s) = strip s"
proof (cases "strip s = []")
  case True
  then show ?thesis by simp
next
  case False
  then show ?thesis by (intro strip_id hd_strip last_strip)
qed

section \<open>The loop, one iteration at a time\<close>

lemma chunk_loop_exit:
  "int (length text) \<le> start \<Longrightarrow> chunk_loop text max_chars overlap start chunks = Some chunks"
  by (subst chunk_loop.simps) simp

lemma chunk_loop_last:
  "start < int (length text) \<Longrightarrow> int (length text) \<le> start + max_chars \<Longrightarrow>
   chunk_loop text max_chars overlap start chunks =
     Some (append_nonempty chunks (strip (py_slice text start (int (length text)))))"
  by (subst chunk_loop.simps) (simp add: min_def Let_def)

lemma chunk_loop_step:
  "start + max_chars < int (length text) \<Longrightarrow> start < int (length text) \<Longrightarrow>
   chunk_loop text max_chars overlap start chunks =
     chunk_loop text max_chars overlap (max 0 (start + max_chars - overlap))
       (append_nonempty chunks (strip (py_slice text start (start + max_chars))))"
  by (subst chunk_loop.simps) (simp add: min_def max_def Let_def)

text \<open>
  An invariant rule for the loop under a valid configuration: the distance from \<open>start\<close>
  to the end of the text shrinks at every iteration, so the loop returns, and a property
  kept by every iteration holds of what it returns.
\<close>

lemma chunk_loop_rule:
  assumes cfg: "overlap < max_chars" "0 \<le> overlap"
    and init: "0 \<le> start" "I start chunks"
    and step: "\<And>s cs. I s cs \<Longrightarrow> 0 \<le> s \<Longrightarrow> s + max_chars < int (length text) \<Longrightarrow>
                 I (s + max_chars - overlap)
                   (append_nonempty cs (strip (py_slice text s (s + max_chars))))"
    and final: "\<And>s cs. I s cs \<Longrightarrow> 0 \<le> s \<Longrightarrow> s < int (length text) \<Longrightarrow>
                 int (length text) \<le> s + max_chars \<Longrightarrow>
                 Q (append_nonempty cs (strip (py_slice text s (int (length text)))))"
    and exit: "\<And>s cs. I s cs \<Longrightarrow> 0 \<le> s \<Longrightarrow> int (length text) \<le> s \<Longrightarrow> Q cs"
  shows "\<exists>ys. chunk_loop text max_chars overlap start chunks = Some ys \<and> Q ys"
  using init
proof (induction "nat (int (length text) - start)" arbitrary: start chunks rule: less_induct)
  case less
  consider (out) "int (length text) \<le> start"
    | (last) "start < int (length text)" "int (length text) \<le> start + max_chars"
    | (more) "start + max_chars < int (length text)"
    by linarith
  then show ?case
  proof cases
    case out
    with less.prems show ?thesis by (simp add: chunk_loop_exit exit)
  next
    case last
    with less.prems show ?thesis by (simp add: chunk_loop_last final)
  next
    case more
    let ?s = "start + max_chars - overlap"
    let ?cs = "append_nonempty chunks (strip (py_slice text start (start + max_chars)))"
    from more cfg less.prems have lt: "start < int (length text)" by linarith
    from cfg less.prems have pos: "0 \<le> ?s" and adv: "start < ?s" by linarith+
    from adv lt have dec: "nat (int (length text) - ?s) < nat (int (length text) - start)"
      by linarith
    have inv: "I ?s ?cs" using step less.prems more by blast
    from less.hyps [OF dec pos inv]
    obtain ys where "chunk_loop text max_chars overlap ?s ?cs = Some ys" "Q ys" by blast
    moreover have "max 0 ?s = ?s" using pos by simp
    ultimately show ?thesis using chunk_loop_step [OF more lt, of overlap chunks] by simp
  qed
qed

lemma chunk_loop_returns:
  assumes "overlap < max_chars" "0 \<le> overlap" "0 \<le> start"
  shows "\<exists>ys. chunk_loop text max_chars overlap start chunks = Some ys"
  using chunk_loop_rule [where I = "\<lambda>_ _. True" and Q = "\<lambda>_. True", OF assms] by simp

lemma chunk_text_returns:
  assumes "overlap < max_chars" "0 \<le> overlap"
  shows "\<exists>ys. chunk_text text0 max_chars overlap = Some ys"
  using chunk_loop_returns [OF assms, of 0] by (simp add: chunk_text_def Let_def)

lemmas chunker_defs = chunk_text_def strip_def remove_cr_def is_space_def py_slice_def
  append_nonempty_def Let_def

section \<open>Termination of the scan\<close>

text \<open>
  Claim C2. For every text and every configuration with \<open>max_chars > overlap \<ge> 0\<close>,
  \<open>chunk_text\<close> returns a (finite) list of chunks. So does the loop from any \<open>start \<ge> 0\<close>,
  and each of its iterations either reaches the end of the text and stops, or goes on
  from \<open>start + max_chars - overlap\<close>, which is not negative, so that the clamp to \<open>0\<close>
  does nothing.
\<close>

theorem chunk_text_terminates:
  assumes "overlap < max_chars" and "0 \<le> overlap"
  shows "(\<exists>ys. chunk_text text0 max_chars overlap = Some ys) \<and>
         (0 \<le> start \<longrightarrow>
            (\<exists>ys. chunk_loop text max_chars overlap start chunks = Some ys) \<and>
            (start < int (length text) \<and> int (length text) \<le> start + max_chars \<longrightarrow>
               chunk_loop text max_chars overlap start chunks =
                 Some (append_nonempty chunks (strip (py_slice text start (int (length text)))))) \<and>
            (start + max_chars < int (length text) \<longrightarrow>
               chunk_loop text max_chars overlap start chunks =
                 chunk_loop text max_chars overlap (start + max_chars - overlap)
                   (append_nonempty chunks (strip (py_slice text start (start + max_chars))))))"
proof (intro conjI impI)
  show "\<exists>ys. chunk_text text0 max_chars overlap = Some ys"
    using assms by (rule chunk_text_returns)
next
  assume "0 \<le> start"
  with assms show "\<exists>ys. chunk_loop text max_chars overlap start chunks = Some ys"
    by (rule chunk_loop_returns)
next
  assume "start < int (length text) \<and> int (length text) \<le> start + max_chars"
  then show "chunk_loop text max_chars overlap start chunks =
      Some (append_nonempty chunks (strip (py_slice text start (int (length text)))))"
    by (simp add: chunk_loop_last)
next
  assume s: "0 \<le> start" and m: "start + max_chars < int (length text)"
  from s assms have "max 0 (start + max_chars - overlap) = start + max_chars - overlap"
    by simp
  moreover from s m assms have "start < int (length text)" by linarith
  ultimately show "chunk_loop text max_chars overlap start chunks =
      chunk_loop text max_chars overlap (start + max_chars - overlap)
        (append_nonempty chunks (strip (py_slice text start (start + max_chars))))"
    using chunk_loop_step [OF m, of overlap chunks] by simp
qed

theorem chunk_text_terminates_witness:
  "(2::int) < 5 \<and> (0::int) \<le> 2 \<and> (0::int) \<le> 3 \<and> (3::int) + 5 < int (length ''hello world'') \<and>
   chunk_text '' hello world '' 5 2 = Some [''hello'', ''lo wo'', ''world''] \<and>
   chunk_loop ''hello world'' 5 2 3 [''hello''] = chunk_loop ''hello world'' 5 2 6 [''hello'', ''lo wo''] \<and>
   chunk_loop ''hello world'' 5 2 6 [''hello'', ''lo wo''] = Some [''hello'', ''lo wo'', ''world'']"
proof -
  have c: "(2::int) < 5" "(0::int) \<le> 2" by simp_all
  have v: "chunk_text '' hello world '' 5 2 = Some [''hello'', ''lo wo'', ''world'']"
    by (simp add: chunker_defs chunk_loop.simps)
  from chunk_text_terminates [OF c, of "'' hello world ''" 3 "''hello world''" "[''hello'']"]
  have a: "chunk_loop ''hello world'' 5 2 3 [''hello''] = chunk_loop ''hello world'' 5 2 6 [''hello'', ''lo wo'']"
    by (simp add: chunker_defs)
  from chunk_text_terminates [OF c, of "'' hello world ''" 6 "''hello world''" "[''hello'', ''lo wo'']"]
  have b: "chunk_loop ''hello world'' 5 2 6 [''hello'', ''lo wo''] = Some [''hello'', ''lo wo'', ''world'']"
    by (simp add: chunker_defs)
  from v a b show ?thesis by simp
qed

section \<open>The chunks are trimmed and bounded\<close>

lemma length_py_slice_le:
  "0 \<le> i \<Longrightarrow> 0 \<le> j \<Longrightarrow> int (length (py_slice xs i j)) \<le> max 0 (j - i)"
  by (auto simp: py_slice_def Let_def min_def max_def)

lemma trimmed_within_window:
  assumes "0 \<le> s" "0 \<le> e" "e - s \<le> max_chars" "0 \<le> max_chars"
    and "\<forall>c \<in> set cs. trimmed_within max_chars c"
  shows "\<forall>c \<in> set (append_nonempty cs (strip (py_slice text s e))). trimmed_within max_chars c"
proof -
  let ?w = "py_slice text s e"
  have "int (length (strip ?w)) \<le> int (length ?w)" using length_strip [of "?w"] by simp
  also have "\<dots> \<le> max 0 (e - s)" using assms(1,2) by (rule length_py_slice_le)
  also have "\<dots> \<le> max_chars" using assms(3,4) by simp
  finally have "strip ?w \<noteq> [] \<Longrightarrow> trimmed_within max_chars (strip ?w)"
    by (simp add: trimmed_within_def hd_strip last_strip)
  with assms(5) show ?thesis by (auto simp: append_nonempty_def)
qed

lemma chunk_text_all_trimmed_within:
  assumes "overlap < max_chars" and "0 \<le> overlap"
  shows "\<exists>ys. chunk_text text0 max_chars overlap = Some ys \<and>
           (\<forall>c \<in> set ys. trimmed_within max_chars c)"
proof -
  let ?text = "remove_cr (strip text0)"
  let ?I = "\<lambda>(s::int) cs. \<forall>c \<in> set cs. trimmed_within max_chars c"
  have "\<exists>ys. chunk_loop ?text max_chars overlap 0 [] = Some ys \<and>
          (\<forall>c \<in> set ys. trimmed_within max_chars c)"
  proof (rule chunk_loop_rule [where I = ?I, OF assms])
    show "(0::int) \<le> 0" by simp
    show "\<forall>c \<in> set []. trimmed_within max_chars c" by simp
  next
    fix s :: int and cs :: "string list"
    assume "\<forall>c \<in> set cs. trimmed_within max_chars c" "0 \<le> s"
    with assms show "\<forall>c \<in> set (append_nonempty cs (strip (py_slice ?text s (s + max_chars)))).
                        trimmed_within max_chars c"
      by (intro trimmed_within_window) auto
  next
    fix s :: int and cs :: "string list"
    assume "\<forall>c \<in> set cs. trimmed_within max_chars c" "0 \<le> s"
      "int (length ?text) \<le> s + max_chars"
    with assms show "\<forall>c \<in> set (append_nonempty cs (strip (py_slice ?text s (int (length ?text))))).
                        trimmed_within max_chars c"
      by (intro trimmed_within_window) auto
  qed
  then show ?thesis
    by (auto simp: chunk_text_def Let_def)
qed

text \<open>
  Claim C9. For every text and every configuration with \<open>max_chars > overlap \<ge> 0\<close>, every
  chunk that \<open>chunk_text\<close> returns is a non-empty string that neither starts nor ends with
  whitespace, and every chunk, the last one included, is at most \<open>max_chars\<close> long.
\<close>

theorem chunk_text_chunks_trimmed_bounded:
  assumes "overlap < max_chars" and "0 \<le> overlap"
  shows "\<exists>ys. chunk_text text0 max_chars overlap = Some ys \<and>
           (\<forall>c \<in> set ys. c \<noteq> [] \<and> \<not> is_space (hd c) \<and> \<not> is_space (last c) \<and>
                          int (length c) \<le> max_chars)"
proof -
  from chunk_text_all_trimmed_within [OF assms, of text0]
  obtain ys where "chunk_text text0 max_chars overlap = Some ys"
    and "\<forall>c \<in> set ys. trimmed_within max_chars c" by blast
  then show ?thesis by (auto simp: trimmed_within_def)
qed

theorem chunk_text_chunks_trimmed_bounded_witness:
  "(2::int) < 5 \<and> (0::int) \<le> 2 \<and>
   chunk_text '' hello world foo bar  '' 5 2 =
     Some [''hello'', ''lo wo'', ''world'', ''ld fo'', ''foo b'', ''bar''] \<and>
   list_all (\<lambda>c. c \<noteq> [] \<and> \<not> is_space (hd c) \<and> \<not> is_space (last c) \<and> int (length c) \<le> 5)
     [''hello'', ''lo wo'', ''world'', ''ld fo'', ''foo b'', ''bar'']"
proof -
  have c: "(2::int) < 5" "(0::int) \<le> 2" by simp_all
  have v: "chunk_text '' hello world foo bar  '' 5 2 =
     Some [''hello'', ''lo wo'', ''world'', ''ld fo'', ''foo b'', ''bar'']"
    by (simp add: chunker_defs chunk_loop.simps)
  from chunk_text_chunks_trimmed_bounded [OF c, of "'' hello world foo bar  ''"] v
  show ?thesis using c by simp
qed

section \<open>No check of the configuration\<close>

lemma remove_cr_strip_Nil: "remove_cr (strip s) = [] \<longleftrightarrow> strip s = []"
proof
  assume e: "remove_cr (strip s) = []"
  show "strip s = []"
  proof (rule ccontr)
    assume ne: "strip s \<noteq> []"
    then have "\<not> is_space (hd (strip s))" by (rule hd_strip)
    then have "hd (strip s) \<noteq> CHR 0x0D" by (auto simp: is_space_def)
    moreover from ne have "hd (strip s) \<in> set (strip s)" by simp
    ultimately have "hd (strip s) \<in> set (remove_cr (strip s))" by (simp add: remove_cr_def)
    with e show False by simp
  qed
qed (simp add: remove_cr_def)

lemma strip_remove_cr_strip: "strip (remove_cr (strip s)) = remove_cr (strip s)"
proof (cases "strip s = []")
  case True
  then show ?thesis by (simp add: remove_cr_def)
next
  case False
  let ?t = "strip s"
  have nocr: "\<not> is_space c \<Longrightarrow> c \<noteq> CHR 0x0D" for c by (auto simp: is_space_def)
  from False obtain x xs where t: "?t = x # xs" by (cases ?t) auto
  from False obtain ys y where t': "?t = ys @ [y]" by (cases ?t rule: rev_cases) auto
  from hd_strip [OF False] t have x: "\<not> is_space x" by simp
  from last_strip [OF False] t' have y: "\<not> is_space y" by simp
  have "hd (remove_cr ?t) = x" using x nocr by (simp add: t remove_cr_def)
  moreover have "last (remove_cr ?t) = y" using y nocr by (simp add: t' remove_cr_def)
  moreover have "remove_cr ?t \<noteq> []" using False by (simp add: remove_cr_strip_Nil)
  ultimately show ?thesis using x y by (intro strip_id) simp_all
qed

lemma py_slice_all: "py_slice xs 0 (int (length xs)) = xs"
  by (simp add: py_slice_def)

lemma chunk_loop_stuck:
  assumes "max_chars \<le> overlap" "max_chars < int (length text)" "text \<noteq> []"
  shows "chunk_loop text max_chars overlap 0 chunks = None"
proof (cases "chunk_loop text max_chars overlap 0 chunks")
  case None
  then show ?thesis .
next
  case (Some ys)
  let ?P = "\<lambda>t m ov s (cs :: string list) (y :: string list).
              \<not> (t = text \<and> m = max_chars \<and> ov = overlap \<and> s = (0::int))"
  have "?P text max_chars overlap 0 chunks ys"
  proof (rule chunk_loop.raw_induct [where P = ?P, OF _ Some])
    fix f :: "string \<Rightarrow> int \<Rightarrow> int \<Rightarrow> int \<Rightarrow> string list \<Rightarrow> string list option"
    fix t m ov s cs y
    assume ih: "\<And>t m ov s cs y. f t m ov s cs = Some y \<Longrightarrow> ?P t m ov s cs y"
    assume body: "(if s < int (length t) then
        (let end = min (s + m) (int (length t));
             chunk = strip (py_slice t s end);
             chunks' = append_nonempty cs chunk
         in if end = int (length t) then Some chunks'
            else f t m ov (if end - ov < 0 then 0 else end - ov) chunks')
      else Some cs) = Some y"
    show "?P t m ov s cs y"
    proof
      assume eq: "t = text \<and> m = max_chars \<and> ov = overlap \<and> s = 0"
      with assms have "min (s + m) (int (length t)) = m" "m \<noteq> int (length t)"
        "0 < int (length t)" "m - ov \<le> 0" by auto
      with body eq have "f t m ov 0 (append_nonempty cs (strip (py_slice t 0 m))) = Some y"
        by (simp add: Let_def split: if_splits)
      from ih [OF this] eq show False by simp
    qed
  qed
  then show ?thesis by simp
qed

lemma chunk_text_loops_forever:
  assumes "max_chars \<le> overlap" "max_chars < int (length (remove_cr (strip text0)))"
    and "strip text0 \<noteq> []"
  shows "chunk_text text0 max_chars overlap = None"
  using assms chunk_loop_stuck [of max_chars overlap "remove_cr (strip text0)" "[]"]
  by (simp add: chunk_text_def Let_def remove_cr_strip_Nil)

text \<open>
  Claim C1 says that a call with \<open>max_chars \<le> overlap\<close> or \<open>max_chars \<le> 0\<close> fails with
  InvalidConfiguration before doing any work. \<open>chunk_text\<close> checks nothing: with
  \<open>max_chars = overlap = 5\<close> and a two-character text it returns the text as one chunk.
\<close>

theorem chunk_text_accepts_overlap_ge_max_chars:
  "chunk_text ''ab'' 5 5 = Some [''ab'']"
  by (simp add: chunker_defs chunk_loop.simps)

text \<open>
  Claim C1, amended. \<open>chunk_text\<close> does not look at its configuration before it starts:
  whatever \<open>max_chars\<close> and \<open>overlap\<close> are, a text that is blank gives the empty list, and a
  text whose trimmed form (carriage returns removed) is at most \<open>max_chars\<close> long gives
  that form as the only chunk.
\<close>

theorem chunk_text_no_validation:
  "(strip text0 = [] \<longrightarrow> chunk_text text0 max_chars overlap = Some []) \<and>
   (strip text0 \<noteq> [] \<and> int (length (remove_cr (strip text0))) \<le> max_chars \<longrightarrow>
      chunk_text text0 max_chars overlap = Some [remove_cr (strip text0)])"
proof (intro conjI impI)
  assume "strip text0 = []"
  then show "chunk_text text0 max_chars overlap = Some []"
    by (simp add: chunk_text_def remove_cr_def)
next
  let ?text = "remove_cr (strip text0)"
  assume a: "strip text0 \<noteq> [] \<and> int (length ?text) \<le> max_chars"
  then have ne: "?text \<noteq> []" by (simp add: remove_cr_strip_Nil)
  then have "0 < int (length ?text)" by simp
  with a have "chunk_loop ?text max_chars overlap 0 [] =
      Some (append_nonempty [] (strip (py_slice ?text 0 (int (length ?text)))))"
    by (intro chunk_loop_last) simp_all
  also have "\<dots> = Some [?text]"
    using ne by (simp add: py_slice_all strip_remove_cr_strip append_nonempty_def)
  finally show "chunk_text text0 max_chars overlap = Some [?text]"
    using ne by (simp add: chunk_text_def Let_def)
qed

theorem chunk_text_no_validation_witness:
  "strip '' \<newline> '' = [] \<and> chunk_text '' \<newline> '' 0 7 = Some [] \<and>
   strip '' short text '' \<noteq> [] \<and> int (length (remove_cr (strip '' short text ''))) \<le> 10 \<and>
   chunk_text '' short text '' 10 10 = Some [''short text'']"
proof -
  have a: "strip '' \<newline> '' = []" by (simp add: chunker_defs)
  have b: "strip '' short text '' \<noteq> [] \<and> int (length (remove_cr (strip '' short text ''))) \<le> 10"
    by (simp add: chunker_defs)
  have c: "remove_cr (strip '' short text '') = ''short text''" by (simp add: chunker_defs)
  from chunk_text_no_validation [of "'' \<newline> ''" 0 7] a
  have 1: "chunk_text '' \<newline> '' 0 7 = Some []" by blast
  from chunk_text_no_validation [of "'' short text ''" 10 10] b c
  have 2: "chunk_text '' short text '' 10 10 = Some [''short text'']" by simp
  from a b 1 2 show ?thesis by simp
qed

section \<open>Putting the chunks back together\<close>

lemma nonoverlapping_concat_snoc:
  "cs \<noteq> [] \<Longrightarrow> nonoverlapping_concat ov (cs @ [w]) = nonoverlapping_concat ov cs @ drop ov w"
  by (cases cs) (simp_all add: nonoverlapping_concat_def)

lemma py_slice_window:
  "0 \<le> s \<Longrightarrow> 0 \<le> m \<Longrightarrow> py_slice xs s (s + m) = take (nat m) (drop (nat s) xs)"
  by (auto simp: py_slice_def Let_def min_def)

lemma py_slice_to_end:
  "0 \<le> s \<Longrightarrow> py_slice xs s (int (length xs)) = drop (nat s) xs"
  by (auto simp: py_slice_def Let_def min_def)

lemma py_slice_past_end:
  "0 \<le> s \<Longrightarrow> int (length xs) \<le> s + m \<Longrightarrow> py_slice xs s (s + m) = py_slice xs s (int (length xs))"
  by (auto simp: py_slice_def Let_def min_def)

lemma py_slice_nonempty:
  assumes "0 \<le> s" "s < int (length xs)" "0 < m"
  shows "py_slice xs s (s + m) \<noteq> []"
proof -
  from assms have "nat s < length xs" "0 < nat m" by simp_all
  then have "take (nat m) (drop (nat s) xs) \<noteq> []" by simp
  with assms show ?thesis by (simp add: py_slice_window)
qed

lemma take_window_join:
  assumes "0 \<le> s" "0 \<le> ov" "ov \<le> m"
  shows "take (nat (s + ov)) xs @ drop (nat ov) (take (nat m) (drop (nat s) xs))
           = take (nat (s + m)) xs"
proof -
  have "drop (nat ov) (take (nat m) (drop (nat s) xs))
          = take (nat m - nat ov) (drop (nat s + nat ov) xs)"
    by (simp add: drop_take add.commute)
  moreover have "nat (s + ov) = nat s + nat ov" "nat (s + m) = nat (s + ov) + (nat m - nat ov)"
    using assms by (simp_all add: nat_add_distrib)
  ultimately show ?thesis by (simp add: take_add)
qed

lemma chunk_loop_reassembles:
  assumes cfg: "overlap < max_chars" "0 \<le> overlap"
    and ne: "text \<noteq> []"
    and win: "\<forall>k::nat. (k = 0 \<or> int k * (max_chars - overlap) + overlap < int (length text)) \<longrightarrow>
                strip (py_slice text (int k * (max_chars - overlap))
                                     (int k * (max_chars - overlap) + max_chars))
                  = py_slice text (int k * (max_chars - overlap))
                                  (int k * (max_chars - overlap) + max_chars)"
  shows "\<exists>ys. chunk_loop text max_chars overlap 0 [] = Some ys \<and>
              nonoverlapping_concat (nat overlap) ys = text"
proof -
  let ?n = "int (length text)"
  let ?nc = "nonoverlapping_concat (nat overlap)"
  let ?I = "\<lambda>s cs. s < ?n \<and>
                  (\<exists>k::nat. s = int k * (max_chars - overlap) \<and> (k = 0 \<or> s + overlap < ?n)) \<and>
                  (if cs = [] then s = 0 else ?nc cs = take (nat (s + overlap)) text)"
  have kept: "append_nonempty cs (strip (py_slice text s (s + max_chars)))
                = cs @ [py_slice text s (s + max_chars)]"
    if "?I s cs" "0 \<le> s" for s cs
  proof -
    from that obtain k :: nat where k: "s = int k * (max_chars - overlap)"
      and taken: "k = 0 \<or> s + overlap < ?n" by blast
    from taken k have "k = 0 \<or> int k * (max_chars - overlap) + overlap < ?n" by simp
    with win k
    have "strip (py_slice text s (s + max_chars)) = py_slice text s (s + max_chars)"
      by blast
    moreover have "py_slice text s (s + max_chars) \<noteq> []"
      using that cfg by (intro py_slice_nonempty) auto
    ultimately show ?thesis by (simp add: append_nonempty_def)
  qed
  show ?thesis
  proof (rule chunk_loop_rule [where I = ?I, OF cfg])
    show "(0::int) \<le> 0" by simp
    have "(0::int) = int 0 * (max_chars - overlap) \<and> (0::nat) = 0" by simp
    then show "?I 0 []" using ne by (intro conjI exI [of _ "0::nat"]) simp_all
  next
    fix s :: int and cs :: "string list"
    assume I: "?I s cs" and s: "0 \<le> s" and far: "s + max_chars < ?n"
    let ?w = "py_slice text s (s + max_chars)"
    from I obtain k :: nat where k: "s = int k * (max_chars - overlap)" by blast
    have "s + max_chars - overlap = int (Suc k) * (max_chars - overlap)"
      by (simp add: k algebra_simps)
    moreover from far have "Suc k = 0 \<or> (s + max_chars - overlap) + overlap < ?n" by simp
    ultimately have exk: "\<exists>j::nat. s + max_chars - overlap = int j * (max_chars - overlap) \<and>
        (j = 0 \<or> (s + max_chars - overlap) + overlap < ?n)" by blast
    have w: "?w = take (nat max_chars) (drop (nat s) text)"
      using s cfg by (simp add: py_slice_window)
    have "?nc (cs @ [?w]) = take (nat (s + max_chars)) text"
    proof (cases "cs = []")
      case True
      with I have "s = 0" by simp
      with True w show ?thesis by (simp add: nonoverlapping_concat_def)
    next
      case False
      with I have "?nc cs = take (nat (s + overlap)) text" by simp
      with False w show ?thesis
        using take_window_join [OF s cfg(2), of max_chars "text"] cfg
        by (simp add: nonoverlapping_concat_snoc)
    qed
    from far cfg exk kept [OF I s] this
    show "?I (s + max_chars - overlap) (append_nonempty cs (strip ?w))" by simp
  next
    fix s :: int and cs :: "string list"
    assume I: "?I s cs" and s: "0 \<le> s" and lt: "s < ?n" and fin: "?n \<le> s + max_chars"
    let ?w = "py_slice text s ?n"
    have w: "?w = drop (nat s) text" using s by (rule py_slice_to_end)
    have same: "py_slice text s (s + max_chars) = ?w" using s fin by (rule py_slice_past_end)
    have "?nc (cs @ [?w]) = text"
    proof (cases "cs = []")
      case True
      with I have "s = 0" by simp
      with True w show ?thesis by (simp add: nonoverlapping_concat_def)
    next
      case False
      with I have "?nc cs = take (nat (s + overlap)) text" by simp
      moreover have "nat (s + overlap) = nat overlap + nat s"
        using s cfg by (simp add: nat_add_distrib)
      ultimately show ?thesis using False w
        by (simp add: nonoverlapping_concat_snoc)
    qed
    from kept [OF I s] same this
    show "?nc (append_nonempty cs (strip ?w)) = text" by simp
  next
    fix s :: int and cs :: "string list"
    assume "?I s cs" "?n \<le> s"
    then show "?nc cs = text" by simp
  qed
qed

lemma strip_no_space: "\<forall>c \<in> set s. \<not> is_space c \<Longrightarrow> strip s = s"
  by (cases "s = []") (simp_all add: strip_id)

lemma set_py_slice: "set (py_slice xs i j) \<subseteq> set xs"
  by (auto simp: py_slice_def Let_def dest: in_set_takeD in_set_dropD)

text \<open>
  Claim C5 says that the non-overlapping portions of consecutive chunks, concatenated,
  give back the trimmed text. Every window is trimmed before it is kept, so whitespace at
  a window's edge is lost: with \<open>max_chars = 2\<close> and \<open>overlap = 0\<close> the text \<open>a   b\<close> gives
  the chunks \<open>a\<close> and \<open>b\<close>.
\<close>

theorem chunk_text_trimming_loses_text:
  "chunk_text ''a   b'' 2 0 = Some [''a'', ''b''] \<and>
   nonoverlapping_concat (nat 0) [''a'', ''b''] \<noteq> strip ''a   b''"
  by (simp add: chunker_defs chunk_loop.simps nonoverlapping_concat_def)

text \<open>
  The windows of the scan. Under a valid configuration the scan starts its windows at
  the multiples \<open>k * (max_chars - overlap)\<close>, and it takes the window number \<open>k\<close> when
  \<open>k = 0\<close> or the window before it, which ends at \<open>k * (max_chars - overlap) + overlap\<close>,
  ended before the end of the text: from there the loop goes on at that start.
\<close>

lemma chunk_loop_reaches_window:
  assumes cfg: "overlap < max_chars" "0 \<le> overlap"
    and k: "k = 0 \<or> int k * (max_chars - overlap) + overlap < int (length text)"
  shows "\<exists>cs. chunk_loop text max_chars overlap 0 [] =
              chunk_loop text max_chars overlap (int k * (max_chars - overlap)) cs"
  using k
proof (induction k)
  case 0
  show ?case by (rule exI [of _ "[]"]) simp
next
  case (Suc k)
  let ?s = "int k * (max_chars - overlap)"
  from Suc.prems have far: "?s + max_chars < int (length text)"
    by (simp add: algebra_simps)
  with cfg have "k = 0 \<or> ?s + overlap < int (length text)" by simp
  from Suc.IH [OF this] obtain cs where
    cs: "chunk_loop text max_chars overlap 0 [] = chunk_loop text max_chars overlap ?s cs" ..
  have pos: "0 \<le> ?s" using cfg by simp
  with far cfg have lt: "?s < int (length text)" by linarith
  have nxt: "max 0 (?s + max_chars - overlap) = int (Suc k) * (max_chars - overlap)"
    using pos cfg by (simp add: algebra_simps)
  from chunk_loop_step [OF far lt, of overlap cs] cs nxt
  show ?case by (metis)
qed

text \<open>
  Claim C5, amended. For every text and every configuration with
  \<open>max_chars > overlap \<ge> 0\<close>, every chunk is at most \<open>max_chars\<close> long; and when no window
  that the scan takes (the first one, and each later one whose predecessor ended before
  the end of the text) begins or ends with whitespace, the first chunk followed by every
  later chunk without its first \<open>overlap\<close> characters is the trimmed text with its
  carriage returns removed. Windows that the scan never takes are not constrained.
\<close>

theorem chunk_text_bounded_and_reassembles:
  assumes "overlap < max_chars" and "0 \<le> overlap"
  shows "\<exists>ys. chunk_text text0 max_chars overlap = Some ys \<and>
           (\<forall>c \<in> set ys. int (length c) \<le> max_chars) \<and>
           ((\<forall>k::nat. (k = 0 \<or> int k * (max_chars - overlap) + overlap
                           < int (length (remove_cr (strip text0)))) \<longrightarrow>
                strip (py_slice (remove_cr (strip text0)) (int k * (max_chars - overlap))
                                (int k * (max_chars - overlap) + max_chars))
                  = py_slice (remove_cr (strip text0)) (int k * (max_chars - overlap))
                             (int k * (max_chars - overlap) + max_chars))
            \<longrightarrow> nonoverlapping_concat (nat overlap) ys = remove_cr (strip text0))"
proof -
  from chunk_text_all_trimmed_within [OF assms, of text0]
  obtain ys where ys: "chunk_text text0 max_chars overlap = Some ys"
    and len: "\<forall>c \<in> set ys. int (length c) \<le> max_chars"
    by (auto simp: trimmed_within_def)
  let ?text = "remove_cr (strip text0)"
  have "nonoverlapping_concat (nat overlap) ys = ?text"
    if win: "\<forall>k::nat. (k = 0 \<or> int k * (max_chars - overlap) + overlap < int (length ?text)) \<longrightarrow>
                strip (py_slice ?text (int k * (max_chars - overlap))
                                (int k * (max_chars - overlap) + max_chars))
                  = py_slice ?text (int k * (max_chars - overlap))
                             (int k * (max_chars - overlap) + max_chars)"
  proof (cases "?text = []")
    case True
    with ys show ?thesis by (simp add: chunk_text_def nonoverlapping_concat_def)
  next
    case False
    from chunk_loop_reassembles [OF assms False win] False ys
    show ?thesis by (simp add: chunk_text_def Let_def)
  qed
  with ys len show ?thesis by blast
qed

theorem chunk_text_bounded_and_reassembles_witness:
  "(4::int) < 8 \<and> (0::int) \<le> 4 \<and>
   chunk_text ''abcdefgh j'' 8 4 = Some [''abcdefgh'', ''efgh j''] \<and>
   strip (py_slice ''abcdefgh j'' 8 16) \<noteq> py_slice ''abcdefgh j'' 8 16 \<and>
   list_all (\<lambda>c. int (length c) \<le> 8) [''abcdefgh'', ''efgh j''] \<and>
   nonoverlapping_concat (nat 4) [''abcdefgh'', ''efgh j''] = ''abcdefgh j'' \<and>
   chunk_text ''abc d'' 5 2 = Some [''abc d''] \<and>
   nonoverlapping_concat (nat 2) [''abc d''] = ''abc d''"
proof -
  have c: "(4::int) < 8" "(0::int) \<le> 4" by simp_all
  have t: "remove_cr (strip ''abcdefgh j'') = ''abcdefgh j''" by (simp add: chunker_defs)
  have v: "chunk_text ''abcdefgh j'' 8 4 = Some [''abcdefgh'', ''efgh j'']"
    by (simp add: chunker_defs chunk_loop.simps)
  have d: "strip (py_slice ''abcdefgh j'' 8 16) \<noteq> py_slice ''abcdefgh j'' 8 16"
    by (simp add: chunker_defs)
  have h: "\<forall>k::nat. (k = 0 \<or> int k * (8 - 4) + 4 < int (length ''abcdefgh j'')) \<longrightarrow>
             strip (py_slice ''abcdefgh j'' (int k * (8 - 4)) (int k * (8 - 4) + 8))
               = py_slice ''abcdefgh j'' (int k * (8 - 4)) (int k * (8 - 4) + 8)"
  proof (intro allI impI)
    fix k :: nat
    assume "k = 0 \<or> int k * (8 - 4) + 4 < int (length ''abcdefgh j'')"
    then have "k = 0 \<or> k = 1" by auto
    then show "strip (py_slice ''abcdefgh j'' (int k * (8 - 4)) (int k * (8 - 4) + 8))
               = py_slice ''abcdefgh j'' (int k * (8 - 4)) (int k * (8 - 4) + 8)"
      by (elim disjE) (simp_all add: chunker_defs)
  qed
  from chunk_text_bounded_and_reassembles [OF c, of "''abcdefgh j''"] v t h
  have r: "nonoverlapping_concat (nat 4) [''abcdefgh'', ''efgh j''] = ''abcdefgh j''"
    by simp
  have c2: "(2::int) < 5" "(0::int) \<le> 2" by simp_all
  have t2: "remove_cr (strip ''abc d'') = ''abc d''" by (simp add: chunker_defs)
  have v2: "chunk_text ''abc d'' 5 2 = Some [''abc d'']"
    by (simp add: chunker_defs chunk_loop.simps)
  have h2: "\<forall>k::nat. (k = 0 \<or> int k * (5 - 2) + 2 < int (length ''abc d'')) \<longrightarrow>
             strip (py_slice ''abc d'' (int k * (5 - 2)) (int k * (5 - 2) + 5))
               = py_slice ''abc d'' (int k * (5 - 2)) (int k * (5 - 2) + 5)"
  proof (intro allI impI)
    fix k :: nat
    assume "k = 0 \<or> int k * (5 - 2) + 2 < int (length ''abc d'')"
    then have "k = 0" by auto
    then show "strip (py_slice ''abc d'' (int k * (5 - 2)) (int k * (5 - 2) + 5))
               = py_slice ''abc d'' (int k * (5 - 2)) (int k * (5 - 2) + 5)"
      by (simp add: chunker_defs)
  qed
  from chunk_text_bounded_and_reassembles [OF c2, of "''abc d''"] v2 t2 h2
  have r2: "nonoverlapping_concat (nat 2) [''abc d''] = ''abc d''" by simp
  from v d r v2 r2 show ?thesis by simp
qed

section \<open>Blank sections of a page\<close>

lemma is_space_nl [simp]: "is_space (CHR 0x0A)"
  by (simp add: is_space_def)

lemma lstrip_append_cong:
  assumes "dropWhile P c1 = dropWhile P c2"
  shows "dropWhile P (c1 @ x) = dropWhile P (c2 @ x)"
proof (cases "\<forall>a \<in> set c1. P a")
  case True
  then have "dropWhile P c1 = []" by (simp add: dropWhile_eq_Nil_conv)
  with assms have "dropWhile P c2 = []" by simp
  then have "\<forall>a \<in> set c2. P a" by (simp add: dropWhile_eq_Nil_conv)
  with True show ?thesis by (simp add: dropWhile_append)
next
  case False
  then have "dropWhile P c1 \<noteq> []" by (simp add: dropWhile_eq_Nil_conv)
  with assms have "dropWhile P c2 \<noteq> []" by simp
  then have "\<not> (\<forall>a \<in> set c2. P a)" by (simp add: dropWhile_eq_Nil_conv)
  with False assms show ?thesis by (auto simp: dropWhile_append)
qed

lemma strip_append_cong:
  assumes "dropWhile is_space c1 = dropWhile is_space c2"
  shows "strip (c1 @ x) = strip (c2 @ x)"
  using lstrip_append_cong [OF assms, of x] by (simp only: strip_def)

lemma split_acc_sep:
  "split_acc cur (CHR 0x0A # CHR 0x0A # rest) = cur # split_acc [] rest"
  by simp

lemma split_acc_shift:
  assumes "\<not> (c = CHR 0x0A \<and> d = CHR 0x0A)"
  shows "split_acc cur (c # d # rest) = split_acc (cur @ [c]) (d # rest)"
  by (subst split_acc.simps) (simp only: assms if_False)

declare split_acc.simps(3) [simp del]

lemma norm_parts_Nil: "norm_parts cur [] = (if strip cur \<noteq> [] then [strip cur] else [])"
  by (simp add: norm_parts_def)

lemma norm_parts_single:
  "norm_parts cur [c] = (if strip (cur @ [c]) \<noteq> [] then [strip (cur @ [c])] else [])"
  by (simp add: norm_parts_def)

lemma norm_parts_sep:
  "norm_parts cur (CHR 0x0A # CHR 0x0A # rest) =
     (if strip cur \<noteq> [] then [strip cur] else []) @ norm_parts [] rest"
  by (simp add: norm_parts_def split_acc_sep)

lemma norm_parts_shift:
  assumes "\<not> (c = CHR 0x0A \<and> d = CHR 0x0A)"
  shows "norm_parts cur (c # d # rest) = norm_parts (cur @ [c]) (d # rest)"
  unfolding norm_parts_def split_acc_shift [OF assms] ..

lemma norm_parts_cong:
  "dropWhile is_space c1 = dropWhile is_space c2 \<Longrightarrow> norm_parts c1 s = norm_parts c2 s"
proof (induction c1 s arbitrary: c2 rule: split_acc.induct)
  case (1 cur)
  from strip_append_cong [OF 1, of "[]"] show ?case by (simp add: norm_parts_Nil)
next
  case (2 cur c)
  from strip_append_cong [OF 2, of "[c]"] show ?case by (simp add: norm_parts_single)
next
  case (3 cur c d rest)
  show ?case
  proof (cases "c = CHR 0x0A \<and> d = CHR 0x0A")
    case True
    from strip_append_cong [OF 3(3), of "[]"] True show ?thesis
      by (simp add: norm_parts_sep)
  next
    case False
    from 3(3) have "dropWhile is_space (cur @ [c]) = dropWhile is_space (c2 @ [c])"
      by (rule lstrip_append_cong)
    from 3(2) [OF False this] show ?thesis by (simp only: norm_parts_shift [OF False])
  qed
qed

lemma blank_lstrip: "\<forall>c \<in> set v. is_space c \<Longrightarrow> dropWhile is_space (v @ s) = dropWhile is_space s"
  by (simp add: dropWhile_append)

lemma norm_parts_blank_cur:
  assumes "\<forall>c \<in> set cur. is_space c"
  shows "norm_parts cur s = norm_parts [] s"
proof (rule norm_parts_cong)
  from assms show "dropWhile is_space cur = dropWhile is_space []"
    by (simp add: dropWhile_eq_Nil_conv)
qed

lemma norm_parts_lstrip_gen:
  "\<forall>a \<in> set cur. is_space a \<Longrightarrow> norm_parts cur s = norm_parts [] (dropWhile is_space s)"
proof (induction cur s rule: split_acc.induct)
  case (1 cur)
  then show ?case by (simp add: norm_parts_Nil strip_blank_iff)
next
  case (2 cur c)
  show ?case
  proof (cases "is_space c")
    case True
    with 2 show ?thesis by (simp add: norm_parts_single norm_parts_Nil strip_blank_iff)
  next
    case False
    with norm_parts_blank_cur [OF 2, of "[c]"] show ?thesis by simp
  qed
next
  case (3 cur c d rest)
  show ?case
  proof (cases "c = CHR 0x0A \<and> d = CHR 0x0A")
    case True
    from 3(3) have "strip cur = []" by (simp add: strip_blank_iff)
    with True 3(1) show ?thesis by (simp add: norm_parts_sep)
  next
    case False
    show ?thesis
    proof (cases "is_space c")
      case sp: True
      with 3(3) have "\<forall>a \<in> set (cur @ [c]). is_space a" by simp
      from 3(2) [OF False this] sp show ?thesis
        by (simp add: norm_parts_shift [OF False])
    next
      case nsp: False
      with norm_parts_blank_cur [OF 3(3), of "c # d # rest"] show ?thesis by simp
    qed
  qed
qed

lemma norm_parts_blank_prefix:
  assumes "\<forall>a \<in> set v1. is_space a" "\<forall>a \<in> set v2. is_space a"
  shows "norm_parts [] (v1 @ s) = norm_parts [] (v2 @ s)"
proof -
  have "norm_parts [] (v1 @ s) = norm_parts [] (dropWhile is_space (v1 @ s))"
    by (rule norm_parts_lstrip_gen) simp
  also have "\<dots> = norm_parts [] (dropWhile is_space (v2 @ s))"
    using assms by (simp add: blank_lstrip)
  also have "\<dots> = norm_parts [] (v2 @ s)"
    by (rule norm_parts_lstrip_gen [symmetric]) simp
  finally show ?thesis .
qed

lemma norm_parts_insert_blank:
  assumes w: "\<forall>a \<in> set w. is_space a"
  shows "norm_parts cur (a @ CHR 0x0A # CHR 0x0A # w @ CHR 0x0A # CHR 0x0A # b)
           = norm_parts cur (a @ CHR 0x0A # CHR 0x0A # b)"
proof (induction cur a rule: split_acc.induct)
  case (1 cur)
  have "norm_parts [] ((w @ [CHR 0x0A, CHR 0x0A]) @ b) = norm_parts [] ([] @ b)"
    using w by (intro norm_parts_blank_prefix) simp_all
  then show ?case by (simp add: norm_parts_sep)
next
  case (2 cur c)
  show ?case
  proof (cases "c = CHR 0x0A")
    case True
    have "norm_parts [] ((CHR 0x0A # w @ [CHR 0x0A, CHR 0x0A]) @ b) = norm_parts [] ([CHR 0x0A] @ b)"
      using w by (intro norm_parts_blank_prefix) simp_all
    with True show ?thesis by (simp add: norm_parts_sep)
  next
    case False
    then have ns: "\<not> (c = CHR 0x0A \<and> CHR 0x0A = CHR 0x0A)" by simp
    have "norm_parts [] ((w @ [CHR 0x0A, CHR 0x0A]) @ b) = norm_parts [] ([] @ b)"
      using w by (intro norm_parts_blank_prefix) simp_all
    then show ?thesis by (simp add: norm_parts_shift [OF ns] norm_parts_sep)
  qed
next
  case (3 cur c d rest)
  show ?case
  proof (cases "c = CHR 0x0A \<and> d = CHR 0x0A")
    case True
    with 3(1) show ?thesis by (simp add: norm_parts_sep)
  next
    case False
    from 3(2) [OF False] show ?thesis by (simp add: norm_parts_shift [OF False])
  qed
qed

lemma chunk_text_strip: "chunk_text (strip p) m ov = chunk_text p m ov"
  by (simp add: chunk_text_def)

lemma extend_parts_strip: "extend_parts acc (map strip ps) = extend_parts acc ps"
  by (induction ps arbitrary: acc) (simp_all add: chunk_text_strip split: option.splits)

lemma extend_parts_rough:
  "extend_parts acc (rough_parts (Some raw)) = extend_parts acc (norm_parts [] raw)"
  by (simp add: rough_parts_def norm_parts_def split_blank_lines_def extend_parts_strip)

lemma extend_pages_append:
  "extend_pages acc (xs @ ys) =
     (case extend_pages acc xs of None \<Rightarrow> None | Some acc' \<Rightarrow> extend_pages acc' ys)"
  by (induction xs arbitrary: acc) (simp_all split: option.splits)

lemma extend_files_append:
  "extend_files acc (xs @ ys) =
     (case extend_files acc xs of None \<Rightarrow> None | Some acc' \<Rightarrow> extend_files acc' ys)"
  by (induction xs arbitrary: acc) (simp_all split: option.splits)

lemma rough_parts_nonblank: "\<forall>p \<in> set (rough_parts page). strip p \<noteq> []"
  by (simp add: rough_parts_def)

lemma extend_parts_insert_blank:
  assumes "\<forall>c \<in> set w. is_space c"
  shows "extend_parts acc (rough_parts (Some (a @ CHR 0x0A # CHR 0x0A # w @ CHR 0x0A # CHR 0x0A # b)))
           = extend_parts acc (rough_parts (Some (a @ CHR 0x0A # CHR 0x0A # b)))"
  by (simp only: extend_parts_rough norm_parts_insert_blank [OF assms])

lemma extend_pages_insert_blank:
  assumes "\<forall>c \<in> set w. is_space c"
  shows "extend_pages acc (ps @ Some (a @ CHR 0x0A # CHR 0x0A # w @ CHR 0x0A # CHR 0x0A # b) # qs)
           = extend_pages acc (ps @ Some (a @ CHR 0x0A # CHR 0x0A # b) # qs)"
  by (simp add: extend_pages_append extend_parts_insert_blank [OF assms] split: option.splits)

lemmas index_defs = build_index_def rough_parts_def split_blank_lines_def split_acc.simps
  main_page_def retrieve_def

text \<open>
  Claim C10. When the index is built, each page's text is split at blank lines (two line
  feeds) and a part that holds only whitespace is not among the parts that are chunked,
  so it gives no chunk; and putting a whitespace-only section between two blank lines of
  a page, or taking it out, leaves what \<open>build_index\<close> returns unchanged.
\<close>

theorem blank_sections_contribute_nothing:
  assumes "\<forall>c \<in> set w. is_space c"
  shows "(\<forall>p \<in> set (rough_parts page). strip p \<noteq> []) \<and>
         w \<notin> set (rough_parts page) \<and>
         build_index encode
           (fs @ (ps @ Some (a @ CHR 0x0A # CHR 0x0A # w @ CHR 0x0A # CHR 0x0A # b) # qs) # gs)
           = build_index encode (fs @ (ps @ Some (a @ CHR 0x0A # CHR 0x0A # b) # qs) # gs)"
proof (intro conjI)
  show "\<forall>p \<in> set (rough_parts page). strip p \<noteq> []" by (rule rough_parts_nonblank)
  from assms have "strip w = []" by (simp add: strip_blank_iff)
  with rough_parts_nonblank [of page] show "w \<notin> set (rough_parts page)" by blast
  show "build_index encode
           (fs @ (ps @ Some (a @ CHR 0x0A # CHR 0x0A # w @ CHR 0x0A # CHR 0x0A # b) # qs) # gs)
           = build_index encode (fs @ (ps @ Some (a @ CHR 0x0A # CHR 0x0A # b) # qs) # gs)"
    by (simp add: build_index_def extend_files_append extend_pages_insert_blank [OF assms]
          split: option.splits)
qed

theorem blank_sections_contribute_nothing_witness:
  "list_all is_space '' \<newline> '' \<and>
   build_index length [[Some ''Alpha\<newline>\<newline> \<newline> \<newline>\<newline>Beta'']]
     = build_index length [[Some ''Alpha\<newline>\<newline>Beta'']] \<and>
   build_index length [[Some ''Alpha\<newline>\<newline>Beta'']]
     = Some (Some (IndexFlatIP [5, 4]), [''Alpha'', ''Beta''])"
proof -
  have w: "\<forall>c \<in> set '' \<newline> ''. is_space c" by (simp add: is_space_def)
  have v: "build_index length [[Some ''Alpha\<newline>\<newline>Beta'']]
     = Some (Some (IndexFlatIP [5, 4]), [''Alpha'', ''Beta''])"
    by (simp add: index_defs chunker_defs chunk_loop.simps)
  from blank_sections_contribute_nothing [OF w, of None length "[]" "[]" "''Alpha''" "''Beta''" "[]" "[]"]
  have "build_index length [[Some ''Alpha\<newline>\<newline> \<newline> \<newline>\<newline>Beta'']]
     = build_index length [[Some ''Alpha\<newline>\<newline>Beta'']]" by simp
  with w v show ?thesis by (simp add: is_space_def)
qed

section \<open>A corpus without chunks\<close>

text \<open>
  Claim C7 says that a query against a corpus without index fails with EmptyCorpus. The
  page does not query such a corpus: for a document with blank text and a question it
  shows the warning that no text was found. A direct call of \<open>retrieve\<close> with no index
  raises AttributeError.
\<close>

theorem empty_corpus_query_skipped_example:
  "main_page length (\<lambda>ix qv k. ([] :: int list, [])) [[Some '' \<newline>\<newline> '']] ''refund policy''
     = Some No_text_warning \<and>
   retrieve length (\<lambda>ix qv k. ([] :: int list, [])) None [] ''refund policy'' 5
     = Inl AttributeError"
  by (simp add: index_defs chunker_defs)

text \<open>
  Claim C7, amended. When no chunks were produced, \<open>build_index\<close> returns no index and
  the empty chunk list, and the page shows its warning without issuing the query,
  whatever the question; \<open>retrieve\<close> called without an index fails with AttributeError,
  it never returns an empty result.
\<close>

theorem empty_corpus_not_queried:
  "(extend_files [] files = Some [] \<longrightarrow>
      build_index encode files = Some (None, []) \<and>
      (files \<noteq> [] \<longrightarrow> main_page encode search files query = Some No_text_warning)) \<and>
   retrieve encode search None chunks query k = Inl AttributeError"
  by (simp add: build_index_def main_page_def retrieve_def)

theorem empty_corpus_not_queried_witness:
  "extend_files [] [[Some '' \<newline>\<newline> '', None]] = Some [] \<and>
   build_index length [[Some '' \<newline>\<newline> '', None]] = Some (None, []) \<and>
   main_page length (\<lambda>ix qv k. ([] :: int list, [])) [[Some '' \<newline>\<newline> '', None]] ''refund policy''
     = Some No_text_warning"
proof -
  have e: "extend_files [] [[Some '' \<newline>\<newline> '', None]] = Some []"
    by (simp add: index_defs chunker_defs)
  from empty_corpus_not_queried [of "[[Some '' \<newline>\<newline> '', None]]" length
      "\<lambda>ix qv k. ([] :: int list, [])" "''refund policy''" "[]" 5] e
  show ?thesis by simp
qed

section \<open>Labels that \<open>retrieve\<close> is given\<close>

text \<open>
  \<open>retrieve\<close> returns one pair for every label that the search gives it, and takes a
  negative label as an index from the end: the label \<open>-1\<close> is the last chunk. It has no
  check of its own on the number of labels or on their range.
\<close>

lemma py_index_minus_one: "chunks \<noteq> [] \<Longrightarrow> py_index chunks (- 1) = Inr (last chunks)"
proof -
  assume ne: "chunks \<noteq> []"
  then have "nat (- 1 + int (length chunks)) = length chunks - 1"
    by (cases chunks) simp_all
  moreover from ne have "0 < length chunks" by simp
  ultimately show ?thesis using ne by (simp add: py_index_def last_conv_nth Suc_le_eq)
qed

lemma length_lookup_chunks: "lookup_chunks chunks labels = Inr ctxs \<Longrightarrow> length ctxs = length labels"
  by (induction labels arbitrary: ctxs) (auto split: sum.splits)

lemma retrieve_length:
  assumes "retrieve encode search (Some ix) chunks query k = Inr res"
    and "search ix (encode query) k = (D, I)" and "length D = length I"
  shows "length res = length I"
  using assms by (auto simp: retrieve_def Let_def split: sum.splits dest: length_lookup_chunks)

end
